theory Spec2Isabelle
  imports Main "HOL-Library.Word" "HOL-Library.Monad_Syntax" "HOL-Library.Sublist"
begin

section \<open>Strings\<close>

text \<open>
  A JavaScript string is a sequence of UTF-16 code units; \<open>length\<close>, \<open>charAt\<close>, \<open>===\<close> and a
  regular expression without the \<open>u\<close> flag all work on code units.
\<close>

type_synonym code_unit = "16 word"
type_synonym jsstring = "code_unit list"

text \<open>Writing down a string of Basic Latin characters: each character is its own code unit.\<close>

definition ascii :: "string \<Rightarrow> jsstring" where
  "ascii s = map (\<lambda>c. of_nat (of_char c)) s"

text \<open>\<open>s.charAt(i)\<close>: the one-unit string at index \<open>i\<close>, the empty string out of range.\<close>

definition charAt :: "jsstring \<Rightarrow> nat \<Rightarrow> jsstring" where
  "charAt s i = (if i < length s then [s ! i] else [])"

text \<open>
  \<open>s.trim()\<close> removes ECMAScript's WhiteSpace and LineTerminator code units from both ends:
  TAB, LF, VT, FF, CR, SPACE, NBSP, U+1680, U+2000 to U+200A, LS, PS, U+202F, U+205F, U+3000
  and U+FEFF.
\<close>

definition isWhiteSpace :: "code_unit \<Rightarrow> bool" where
  "isWhiteSpace c \<longleftrightarrow>
     c \<in> set [0x0009, 0x000A, 0x000B, 0x000C, 0x000D, 0x0020, 0x00A0, 0x1680,
              0x2028, 0x2029, 0x202F, 0x205F, 0x3000, 0xFEFF]
     \<or> (0x2000 \<le> c \<and> c \<le> 0x200A)"

definition trim :: "jsstring \<Rightarrow> jsstring" where
  "trim s = rev (dropWhile isWhiteSpace (rev (dropWhile isWhiteSpace s)))"

text \<open>
  \<open>s.toLowerCase()\<close> is the platform's Unicode lower-casing. Its table is no part of the
  repository, so every function below that lower-cases takes it as the parameter \<open>lower\<close>, and
  the theorems hold for whatever function is supplied, under the hypotheses they state.
  At concrete Basic Latin inputs the built-in acts as \<open>toLowerCase_ascii\<close>: A to Z are moved
  to a to z and every other code unit is kept.
\<close>

definition toLowerCase_ascii :: "jsstring \<Rightarrow> jsstring" where
  "toLowerCase_ascii s = map (\<lambda>c. if 0x41 \<le> c \<and> c \<le> 0x5A then c + 0x20 else c) s"

text \<open>The character class of \<^verbatim>\<open>/[.,!?:;'"-]/g\<close>, in the order it is written.\<close>

definition punctuation :: "code_unit list" where
  "punctuation = [0x2E, 0x2C, 0x21, 0x3F, 0x3A, 0x3B, 0x27, 0x22, 0x2D]"

text \<open>
  \<^verbatim>\<open>const normalize = (s) => s.trim().toLowerCase().replace(/[.,!?:;'"-]/g, '')\<close>
  (\<open>normalize\<close> is a constant of HOL already, hence the suffix.)
\<close>

definition normalize_str :: "(jsstring \<Rightarrow> jsstring) \<Rightarrow> jsstring \<Rightarrow> jsstring" where
  "normalize_str lower s = filter (\<lambda>c. c \<notin> set punctuation) (lower (trim s))"

section \<open>Arrays\<close>

text \<open>
  An array is a list. Reading an index that holds no element gives \<open>undefined\<close> in JavaScript:
  here \<open>None\<close>. A store inside the array replaces the element, a store at index \<open>length\<close>
  extends the array by one element; a store further out would leave holes, which a list
  cannot hold: \<open>None\<close> again. A computation that meets \<open>None\<close> stops with \<open>None\<close>.
\<close>

definition load :: "'a list \<Rightarrow> nat \<Rightarrow> 'a option" where
  "load xs i = (if i < length xs then Some (xs ! i) else None)"

definition store :: "'a list \<Rightarrow> nat \<Rightarrow> 'a \<Rightarrow> 'a list option" where
  "store xs i v =
     (if i < length xs then Some (xs[i := v])
      else if i = length xs then Some (xs @ [v])
      else None)"

type_synonym matrix = "nat list list"

text \<open>\<open>matrix[i][j]\<close> as an expression, and the assignment \<open>matrix[i][j] = v\<close>.\<close>

definition cell :: "matrix \<Rightarrow> nat \<Rightarrow> nat \<Rightarrow> nat option" where
  "cell m i j = do { row \<leftarrow> load m i; load row j }"

definition put :: "matrix \<Rightarrow> nat \<Rightarrow> nat \<Rightarrow> nat \<Rightarrow> matrix option" where
  "put m i j v = do { row \<leftarrow> load m i; row' \<leftarrow> store row j v; store m i row' }"

section \<open>getLevenshteinDistance\<close>

text \<open>\<^verbatim>\<open>for (let i = 0; i <= b.length; i++) { matrix[i] = [i]; }\<close> with \<open>n = b.length\<close>.\<close>

function init_column :: "nat \<Rightarrow> nat \<Rightarrow> matrix \<Rightarrow> matrix option" where
  "init_column i n m =
     (if i \<le> n then do { m' \<leftarrow> store m i [i]; init_column (i + 1) n m' }
      else Some m)"
  by pat_completeness auto
termination
  by (relation "measure (\<lambda>(i, n, m). Suc n - i)") auto

text \<open>\<^verbatim>\<open>for (let j = 0; j <= a.length; j++) { matrix[0][j] = j; }\<close> with \<open>n = a.length\<close>.\<close>

function init_row :: "nat \<Rightarrow> nat \<Rightarrow> matrix \<Rightarrow> matrix option" where
  "init_row j n m =
     (if j \<le> n then do { m' \<leftarrow> put m 0 j j; init_row (j + 1) n m' }
      else Some m)"
  by pat_completeness auto
termination
  by (relation "measure (\<lambda>(j, n, m). Suc n - j)") auto

text \<open>The inner loop over \<open>j\<close>, entered with \<open>j = 1\<close>, for one row \<open>i\<close>.\<close>

function fill_row :: "jsstring \<Rightarrow> jsstring \<Rightarrow> nat \<Rightarrow> nat \<Rightarrow> matrix \<Rightarrow> matrix option" where
  "fill_row a b i j m =
     (if j \<le> length a then do {
        v \<leftarrow> (if charAt b (i - 1) = charAt a (j - 1) then cell m (i - 1) (j - 1)
              else do {
                substitution \<leftarrow> cell m (i - 1) (j - 1);
                insertion \<leftarrow> cell m i (j - 1);
                deletion \<leftarrow> cell m (i - 1) j;
                Some (min (substitution + 1) (min (insertion + 1) (deletion + 1)))
              });
        m' \<leftarrow> put m i j v;
        fill_row a b i (j + 1) m'
      }
      else Some m)"
  by pat_completeness auto
termination
  by (relation "measure (\<lambda>(a, b, i, j, m). Suc (length a) - j)") auto

text \<open>The outer loop over \<open>i\<close>, entered with \<open>i = 1\<close>.\<close>

function fill_rows :: "jsstring \<Rightarrow> jsstring \<Rightarrow> nat \<Rightarrow> matrix \<Rightarrow> matrix option" where
  "fill_rows a b i m =
     (if i \<le> length b then do { m' \<leftarrow> fill_row a b i 1 m; fill_rows a b (i + 1) m' }
      else Some m)"
  by pat_completeness auto
termination
  by (relation "measure (\<lambda>(a, b, i, m). Suc (length b) - i)") auto

text \<open>
  A string is falsy exactly when it is empty, so \<open>!a\<close> is \<open>a = []\<close> and \<open>b ? b.length : 0\<close>
  is the conditional below.
\<close>

definition getLevenshteinDistance :: "jsstring \<Rightarrow> jsstring \<Rightarrow> nat option" where
  "getLevenshteinDistance a b =
     (if a = [] then Some (if b \<noteq> [] then length b else 0)
      else if b = [] then Some (if a \<noteq> [] then length a else 0)
      else do {
        m1 \<leftarrow> init_column 0 (length b) [];
        m2 \<leftarrow> init_row 0 (length a) m1;
        m3 \<leftarrow> fill_rows a b 1 m2;
        cell m3 (length b) (length a)
      })"

section \<open>isFuzzyMatch\<close>

definition isFuzzyMatch :: "(jsstring \<Rightarrow> jsstring) \<Rightarrow> jsstring \<Rightarrow> jsstring \<Rightarrow> bool option" where
  "isFuzzyMatch lower user correct =
     (if user = [] \<or> correct = [] then Some False
      else
        let a = normalize_str lower user;
            b = normalize_str lower correct
        in if a = b then Some True
           else do {
             dist \<leftarrow> getLevenshteinDistance a b;
             let len = max (length a) (length b) in
             if len \<le> 3 then Some (dist = 0)
             else if len \<le> 7 then Some (dist \<le> 1)
             else Some (dist \<le> 2)
           })"

section \<open>handleSubmit\<close>

datatype RiddleType = Text | Choice

record Riddle =
  day :: nat
  question :: jsstring
  type :: RiddleType
  options :: "jsstring list option"
  correctAnswer :: jsstring
  acceptedAnswers :: "jsstring list option"
  solutionExplanation :: jsstring
  hints :: "jsstring list"
  imageUrl :: "jsstring option"

text \<open>\<open>xs.some(p)\<close>: the elements in order, stopping at the first one that \<open>p\<close> accepts.\<close>

fun some :: "('a \<Rightarrow> bool option) \<Rightarrow> 'a list \<Rightarrow> bool option" where
  "some p [] = Some False"
| "some p (x # xs) = do { r \<leftarrow> p x; if r then Some True else some p xs }"

text \<open>
  The value of the local variable \<open>isCorrect\<close> of \<open>handleSubmit\<close> once its \<open>if\<close> statement
  has run, for a riddle that is not null.
\<close>

definition isCorrect :: "(jsstring \<Rightarrow> jsstring) \<Rightarrow> Riddle \<Rightarrow> jsstring \<Rightarrow> bool option" where
  "isCorrect lower riddle answer =
     (if type riddle = Choice then Some (answer = correctAnswer riddle)
      else do {
        matched \<leftarrow> isFuzzyMatch lower answer (correctAnswer riddle);
        if matched then Some True
        else (case acceptedAnswers riddle of
                Some answers \<Rightarrow>
                  if length answers > 0 then some (\<lambda>ans. isFuzzyMatch lower answer ans) answers
                  else Some False
              | None \<Rightarrow> Some False)
      })"

text \<open>
  The component state that \<open>handleSubmit\<close> reads and writes. The two timers it starts (calling
  \<open>onSolved\<close>, clearing \<open>showError\<close>) run later and are left out.
\<close>

record ModalState =
  userAnswer :: jsstring
  hintClicks :: nat
  showError :: bool
  showSuccess :: bool
  forceShowSolution :: bool

definition handleSubmit ::
  "(jsstring \<Rightarrow> jsstring) \<Rightarrow> Riddle option \<Rightarrow> ModalState \<Rightarrow> ModalState option" where
  "handleSubmit lower riddle st =
     (case riddle of
        None \<Rightarrow> Some st
      | Some r \<Rightarrow> do {
          correct \<leftarrow> isCorrect lower r (userAnswer st);
          if correct then Some (st\<lparr>showSuccess := True\<rparr>)
          else Some (st\<lparr>showError := True\<rparr>)
        })"

section \<open>Edit distance, as the specification words it\<close>

text \<open>
  One single-character edit: an insertion, a deletion or a substitution at any position.
  \<open>(edit1 ^^ n) xs ys\<close> says that \<open>n\<close> edits in a row transform \<open>xs\<close> into \<open>ys\<close>.
\<close>

inductive edit1 :: "'a list \<Rightarrow> 'a list \<Rightarrow> bool" where
  insertion: "edit1 (u @ v) (u @ c # v)"
| deletion: "edit1 (u @ c # v) (u @ v)"
| substitution: "c \<noteq> c' \<Longrightarrow> edit1 (u @ c # v) (u @ c' # v)"

text \<open>The recurrence of the edit distance on the strings themselves.\<close>

fun edit_distance :: "'a list \<Rightarrow> 'a list \<Rightarrow> nat" where
  "edit_distance [] ys = length ys"
| "edit_distance (x # xs) [] = Suc (length xs)"
| "edit_distance (x # xs) (y # ys) =
     min (edit_distance xs ys + (if x = y then 0 else 1))
         (min (edit_distance xs (y # ys) + 1) (edit_distance (x # xs) ys + 1))"

text \<open>
  The specification's grid: row 0 and column 0 hold \<open>0..len\<close>, every other cell \<open>[i][j]\<close> is
  the minimum of the diagonal cost (0 if the characters are equal, else 1 more), the left
  cost (1 more) and the top cost (1 more).
\<close>

fun grid_cell :: "'a list \<Rightarrow> 'a list \<Rightarrow> nat \<Rightarrow> nat \<Rightarrow> nat" where
  "grid_cell a b 0 j = j"
| "grid_cell a b (Suc i) 0 = Suc i"
| "grid_cell a b (Suc i) (Suc j) =
     min (grid_cell a b i j + (if b ! i = a ! j then 0 else 1))
         (min (grid_cell a b (Suc i) j + 1) (grid_cell a b i (Suc j) + 1))"

section \<open>The matrix while the loops run\<close>

text \<open>
  Cell \<open>[r][c]\<close> of the finished matrix is the distance between the first \<open>r\<close> code units of
  \<open>b\<close> and the first \<open>c\<close> of \<open>a\<close>. At every moment the matrix consists of \<open>h\<close> rows, row \<open>r\<close>
  filled up to width \<open>w r\<close>. While row \<open>i\<close> is being filled at column \<open>j\<close> the rows above are
  complete (width \<open>n\<close>) and the rows below still hold their first cell only.
\<close>

definition prefix_distance :: "'a list \<Rightarrow> 'a list \<Rightarrow> nat \<Rightarrow> nat \<Rightarrow> nat" where
  "prefix_distance a b r c = edit_distance (rev (take r b)) (rev (take c a))"

definition tab :: "'a list \<Rightarrow> 'a list \<Rightarrow> nat \<Rightarrow> (nat \<Rightarrow> nat) \<Rightarrow> matrix" where
  "tab a b h w = map (\<lambda>r. map (prefix_distance a b r) [0..<w r]) [0..<h]"

definition widths :: "nat \<Rightarrow> nat \<Rightarrow> nat \<Rightarrow> nat \<Rightarrow> nat" where
  "widths n i j r = (if r < i then n else if r = i then j else 1)"

declare init_column.simps [simp del] init_row.simps [simp del]
declare fill_row.simps [simp del] fill_rows.simps [simp del]

section \<open>Properties of the edit distance\<close>

lemma ed_Nil2: "edit_distance xs [] = length xs"
  by (cases xs) simp_all

lemma ed_refl: "edit_distance xs xs = 0"
  by (induction xs) simp_all

lemma ed_Cons2_le: "edit_distance xs (y # ys) \<le> Suc (edit_distance xs ys)"
  by (cases xs) (simp_all add: ed_Nil2)

lemma ed_Cons1_le: "edit_distance (x # xs) ys \<le> Suc (edit_distance xs ys)"
  by (cases ys) (simp_all add: ed_Nil2)

lemma edit1_Cons: "edit1 ys zs \<Longrightarrow> edit1 (c # ys) (c # zs)"
proof (induction rule: edit1.induct)
  case (insertion u v d)
  show ?case using edit1.insertion [of "c # u" v d] by simp
next
  case (deletion u d v)
  show ?case using edit1.deletion [of "c # u" d v] by simp
next
  case (substitution d d' u v)
  then show ?case using edit1.substitution [of d d' "c # u" v] by simp
qed

lemma edit1_front:
  assumes "edit1 ys zs"
  shows "(\<exists>c. zs = c # ys) \<or> (\<exists>c. ys = c # zs)
       \<or> (\<exists>c c' t. c \<noteq> c' \<and> ys = c # t \<and> zs = c' # t)
       \<or> (\<exists>c ys' zs'. ys = c # ys' \<and> zs = c # zs' \<and> edit1 ys' zs')"
  using assms
proof (cases rule: edit1.cases)
  case (insertion u v c)
  then show ?thesis by (cases u) (auto intro: edit1.insertion)
next
  case (deletion u c v)
  then show ?thesis by (cases u) (auto intro: edit1.deletion)
next
  case (substitution c c' u v)
  then show ?thesis by (cases u) (auto intro: edit1.substitution)
qed

lemma edit1_length: "edit1 ys zs \<Longrightarrow> length zs \<le> Suc (length ys)"
  by (auto elim: edit1.cases)

lemma ed_edit1: "edit1 ys zs \<Longrightarrow> edit_distance xs zs \<le> Suc (edit_distance xs ys)"
proof (induction "length xs + length ys" arbitrary: xs ys zs rule: less_induct)
  case less
  show ?case
  proof (cases xs)
    case Nil
    then show ?thesis using edit1_length [OF less.prems] by simp
  next
    case (Cons x xs')
    consider (ins) c where "zs = c # ys"
      | (del) c where "ys = c # zs"
      | (sub) c c' t where "c \<noteq> c'" "ys = c # t" "zs = c' # t"
      | (cong) c ys' zs' where "ys = c # ys'" "zs = c # zs'" "edit1 ys' zs'"
      using edit1_front [OF less.prems] by blast
    then show ?thesis
    proof cases
      case ins
      then show ?thesis by (simp add: ed_Cons2_le)
    next
      case del
      have a: "edit_distance xs' zs \<le> Suc (edit_distance xs' ys)"
        using less.hyps [of xs' ys zs] less.prems Cons by simp
      have b: "edit_distance xs zs \<le> Suc (edit_distance xs' zs)"
        using Cons ed_Cons1_le by simp
      show ?thesis using a b del Cons by (simp add: min_def)
    next
      case sub
      have a: "edit_distance xs' zs \<le> Suc (edit_distance xs' ys)"
        using less.hyps [of xs' ys zs] less.prems Cons by simp
      have b: "edit_distance xs zs \<le> Suc (edit_distance xs' zs)"
        using Cons ed_Cons1_le by simp
      have c: "edit_distance xs zs \<le> Suc (edit_distance xs t)"
        using sub ed_Cons2_le by simp
      have d: "edit_distance xs zs \<le> Suc (edit_distance xs' t)"
        using sub Cons by (simp add: min_def)
      show ?thesis using a b c d sub Cons by (simp add: min_def)
    next
      case cong
      have a: "edit_distance xs' zs \<le> Suc (edit_distance xs' ys)"
        using less.hyps [of xs' ys zs] less.prems Cons by simp
      have b: "edit_distance xs zs \<le> Suc (edit_distance xs' zs)"
        using Cons ed_Cons1_le by simp
      have c: "edit_distance xs zs' \<le> Suc (edit_distance xs ys')"
        using less.hyps [of xs ys' zs'] cong by simp
      have d: "edit_distance xs' zs' \<le> Suc (edit_distance xs' ys')"
        using less.hyps [of xs' ys' zs'] cong Cons by simp
      have e: "edit_distance xs zs \<le> Suc (edit_distance xs zs')"
        using cong ed_Cons2_le by simp
      have f: "edit_distance xs zs \<le> edit_distance xs' zs' + (if x = c then 0 else 1)"
        using cong Cons by simp
      show ?thesis using a b c d e f cong Cons by (simp add: min_def split: if_splits)
    qed
  qed
qed

lemma ed_lower: "(edit1 ^^ n) xs ys \<Longrightarrow> edit_distance xs ys \<le> n"
proof (induction n arbitrary: ys)
  case 0
  then show ?case by (simp add: ed_refl)
next
  case (Suc n)
  then obtain y where y: "(edit1 ^^ n) xs y" "edit1 y ys" by auto
  have "edit_distance xs ys \<le> Suc (edit_distance xs y)" using y(2) by (rule ed_edit1)
  also have "\<dots> \<le> Suc n" using Suc.IH [OF y(1)] by simp
  finally show ?case .
qed

lemma edits_Cons: "(edit1 ^^ n) xs ys \<Longrightarrow> (edit1 ^^ n) (c # xs) (c # ys)"
proof (induction n arbitrary: ys)
  case 0
  then show ?case by simp
next
  case (Suc n)
  then obtain y where y: "(edit1 ^^ n) xs y" "edit1 y ys" by auto
  show ?case using Suc.IH [OF y(1)] edit1_Cons [OF y(2), of c] by auto
qed

lemma edits_first: "edit1 xs y \<Longrightarrow> (edit1 ^^ n) y zs \<Longrightarrow> (edit1 ^^ Suc n) xs zs"
  by (rule relpowp_Suc_I2)

lemma edits_last: "(edit1 ^^ n) xs y \<Longrightarrow> edit1 y zs \<Longrightarrow> (edit1 ^^ Suc n) xs zs"
  by auto

lemma edit1_ins_front: "edit1 ys (c # ys)"
  using edit1.insertion [of "[]" ys c] by simp

lemma edit1_del_front: "edit1 (c # ys) ys"
  using edit1.deletion [of "[]" c ys] by simp

lemma edit1_sub_front: "c \<noteq> c' \<Longrightarrow> edit1 (c # ys) (c' # ys)"
  using edit1.substitution [of c c' "[]" ys] by simp

lemma edits_from_Nil: "(edit1 ^^ length ys) [] ys"
proof (induction ys)
  case Nil
  then show ?case by simp
next
  case (Cons y ys)
  have "edit1 [] [y]" using edit1_ins_front [of "[]" y] by simp
  then show ?case using edits_first [OF _ edits_Cons [OF Cons.IH, of y]] by simp
qed

lemma edits_to_Nil: "(edit1 ^^ length xs) xs []"
proof (induction xs)
  case Nil
  then show ?case by simp
next
  case (Cons x xs)
  show ?case using edits_first [OF edit1_del_front Cons.IH] by simp
qed

lemma ed_upper: "(edit1 ^^ edit_distance xs ys) xs ys"
proof (induction xs ys rule: edit_distance.induct)
  case (1 ys)
  show ?case using edits_from_Nil by simp
next
  case (2 x xs)
  show ?case using edits_to_Nil [of "x # xs"] by simp
next
  case (3 x xs y ys)
  let ?d = "edit_distance xs ys + (if x = y then 0 else 1)"
  let ?l = "edit_distance xs (y # ys) + 1"
  let ?t = "edit_distance (x # xs) ys + 1"
  have d: "(edit1 ^^ ?d) (x # xs) (y # ys)"
  proof (cases "x = y")
    case True
    then show ?thesis using edits_Cons [OF "3.IH"(1), of y] by simp
  next
    case False
    show ?thesis
      using edits_first [OF edit1_sub_front [OF False] edits_Cons [OF "3.IH"(1), of y]] False
      by simp
  qed
  have l: "(edit1 ^^ ?l) (x # xs) (y # ys)"
    using edits_first [OF edit1_del_front "3.IH"(2)] by simp
  have t: "(edit1 ^^ ?t) (x # xs) (y # ys)"
    using edits_last [OF "3.IH"(3) edit1_ins_front] by simp
  have "edit_distance (x # xs) (y # ys) = ?d \<or> edit_distance (x # xs) (y # ys) = ?l
      \<or> edit_distance (x # xs) (y # ys) = ?t"
    by (simp add: min_def)
  then show ?case using d l t by metis
qed

lemma edit1_sym: "edit1 xs ys \<Longrightarrow> edit1 ys xs"
  by (induction rule: edit1.induct) (auto intro: edit1.intros)

lemma edit1_rev: "edit1 xs ys \<Longrightarrow> edit1 (rev xs) (rev ys)"
proof (induction rule: edit1.induct)
  case (insertion u v c)
  show ?case using edit1.insertion [of "rev v" "rev u" c] by simp
next
  case (deletion u c v)
  show ?case using edit1.deletion [of "rev v" c "rev u"] by simp
next
  case (substitution c c' u v)
  then show ?case using edit1.substitution [of c c' "rev v" "rev u"] by simp
qed

lemma edits_sym: "(edit1 ^^ n) xs ys \<Longrightarrow> (edit1 ^^ n) ys xs"
proof (induction n arbitrary: ys)
  case 0
  then show ?case by simp
next
  case (Suc n)
  then obtain y where y: "(edit1 ^^ n) xs y" "edit1 y ys" by auto
  show ?case using edits_first [OF edit1_sym [OF y(2)] Suc.IH [OF y(1)]] .
qed

lemma edits_rev: "(edit1 ^^ n) xs ys \<Longrightarrow> (edit1 ^^ n) (rev xs) (rev ys)"
proof (induction n arbitrary: ys)
  case 0
  then show ?case by simp
next
  case (Suc n)
  then obtain y where y: "(edit1 ^^ n) xs y" "edit1 y ys" by auto
  show ?case using edits_last [OF Suc.IH [OF y(1)] edit1_rev [OF y(2)]] .
qed

lemma edits_trans: "(edit1 ^^ m) xs ys \<Longrightarrow> (edit1 ^^ n) ys zs \<Longrightarrow> (edit1 ^^ (m + n)) xs zs"
proof (induction n arbitrary: zs)
  case 0
  then show ?case by simp
next
  case (Suc n)
  then obtain y where y: "(edit1 ^^ n) ys y" "edit1 y zs" by auto
  show ?case using edits_last [OF Suc.IH [OF Suc.prems(1) y(1)] y(2)] by simp
qed

lemma ed_sym: "edit_distance xs ys = edit_distance ys xs"
  by (meson ed_lower ed_upper edits_sym le_antisym)

lemma ed_rev: "edit_distance (rev xs) (rev ys) = edit_distance xs ys"
proof (rule le_antisym)
  show "edit_distance (rev xs) (rev ys) \<le> edit_distance xs ys"
    using ed_lower [OF edits_rev [OF ed_upper]] .
  show "edit_distance xs ys \<le> edit_distance (rev xs) (rev ys)"
    using ed_lower [OF edits_rev [OF ed_upper [of "rev xs" "rev ys"]]] by simp
qed

lemma ed_triangle: "edit_distance xs zs \<le> edit_distance xs ys + edit_distance ys zs"
  using ed_lower [OF edits_trans [OF ed_upper ed_upper]] .

lemma ed_eq_0: "edit_distance xs ys = 0 \<longleftrightarrow> xs = ys"
  using ed_upper [of xs ys] ed_refl [of xs] by auto

lemma ed_same_head: "edit_distance (x # xs) (x # ys) = edit_distance xs ys"
proof -
  have "edit_distance xs ys \<le> Suc (edit_distance xs (x # ys))"
    using ed_edit1 [OF edit1_del_front [of x ys], of xs] .
  moreover have "edit_distance xs ys \<le> Suc (edit_distance (x # xs) ys)"
    using ed_edit1 [OF edit1_del_front [of x xs], of ys] by (simp add: ed_sym [of ys])
  ultimately show ?thesis by (simp add: min_def)
qed

section \<open>The matrix computed by the loops\<close>

lemma prefix_distance_0_left: "prefix_distance a b 0 c = min c (length a)"
  by (simp add: prefix_distance_def min.commute)

lemma prefix_distance_0_right: "prefix_distance a b r 0 = min r (length b)"
  by (simp add: prefix_distance_def ed_Nil2 min.commute)

lemma rev_take_Suc: "i < length b \<Longrightarrow> rev (take (Suc i) b) = b ! i # rev (take i b)"
  by (simp add: take_Suc_conv_app_nth)

lemma prefix_distance_Suc:
  assumes "i < length b" "j < length a"
  shows "prefix_distance a b (Suc i) (Suc j) =
         (if b ! i = a ! j then prefix_distance a b i j
          else min (prefix_distance a b i j + 1)
                   (min (prefix_distance a b (Suc i) j + 1) (prefix_distance a b i (Suc j) + 1)))"
proof (cases "b ! i = a ! j")
  case True
  then show ?thesis
    using assms by (simp only: prefix_distance_def rev_take_Suc ed_same_head refl if_True)
next
  case False
  then show ?thesis
    using assms by (simp add: prefix_distance_def rev_take_Suc min.commute)
qed

lemma prefix_distance_Suc_ref:
  assumes "i < length b" "j < length a"
  shows "prefix_distance a b (Suc i) (Suc j) =
         min (prefix_distance a b i j + (if b ! i = a ! j then 0 else 1))
             (min (prefix_distance a b (Suc i) j + 1) (prefix_distance a b i (Suc j) + 1))"
  using assms
  by (simp add: prefix_distance_def rev_take_Suc min.commute)

lemma grid_cell_prefix:
  "i \<le> length b \<Longrightarrow> j \<le> length a \<Longrightarrow> grid_cell a b i j = prefix_distance a b i j"
proof (induction a b i j rule: grid_cell.induct)
  case (1 a b j)
  then show ?case by (simp add: prefix_distance_0_left)
next
  case (2 a b i)
  then show ?case by (simp add: prefix_distance_0_right)
next
  case (3 a b i j)
  then show ?case by (simp add: prefix_distance_Suc_ref)
qed

lemma prefix_distance_full: "prefix_distance a b (length b) (length a) = edit_distance a b"
  by (simp add: prefix_distance_def ed_rev ed_sym [of b a])

lemma length_tab: "length (tab a b h w) = h"
  by (simp add: tab_def)

lemma load_tab: "r < h \<Longrightarrow> load (tab a b h w) r = Some (map (prefix_distance a b r) [0..<w r])"
  by (simp add: load_def tab_def)

lemma cell_tab: "r < h \<Longrightarrow> c < w r \<Longrightarrow> cell (tab a b h w) r c = Some (prefix_distance a b r c)"
  by (simp add: cell_def load_tab) (simp add: load_def)

lemma store_tab_row:
  "r < h \<Longrightarrow> store (tab a b h w) r (map (prefix_distance a b r) [0..<k]) = Some (tab a b h (w(r := k)))"
  by (auto simp: store_def tab_def intro!: nth_equalityI)

lemma put_tab_append:
  assumes "r < h" "w r = c"
  shows "put (tab a b h w) r c (prefix_distance a b r c) = Some (tab a b h (w(r := Suc c)))"
proof -
  have "store (map (prefix_distance a b r) [0..<c]) c (prefix_distance a b r c)
        = Some (map (prefix_distance a b r) [0..<Suc c])"
    by (simp add: store_def)
  then show ?thesis
    using assms store_tab_row [of r h a b w "Suc c"] by (simp add: put_def load_tab)
qed

lemma put_tab_overwrite:
  assumes "r < h" "c < w r"
  shows "put (tab a b h w) r c (prefix_distance a b r c) = Some (tab a b h w)"
proof -
  have "store (map (prefix_distance a b r) [0..<w r]) c (prefix_distance a b r c)
        = Some (map (prefix_distance a b r) [0..<w r])"
    using assms(2) by (auto simp: store_def intro!: nth_equalityI) (metis nth_list_update_eq nth_list_update_neq length_map nth_map length_upt diff_zero nth_upt add_0)
  then show ?thesis
    using assms store_tab_row [of r h a b w "w r"] by (simp add: put_def load_tab)
qed

lemma store_tab_new:
  assumes "h \<le> length b" "w h = 1"
  shows "store (tab a b h w) h [h] = Some (tab a b (Suc h) w)"
  using assms by (simp add: store_def tab_def prefix_distance_0_right)


lemma init_column_tab:
  "i \<le> Suc n \<Longrightarrow> n \<le> length b \<Longrightarrow>
   init_column i n (tab a b i (\<lambda>r. 1)) = Some (tab a b (Suc n) (\<lambda>r. 1))"
proof (induction "Suc n - i" arbitrary: i)
  case 0
  then have "i = Suc n" by simp
  then show ?case by (subst init_column.simps) simp
next
  case (Suc k)
  then have le: "i \<le> n" by simp
  have st: "store (tab a b i (\<lambda>r. 1)) i [i] = Some (tab a b (Suc i) (\<lambda>r. 1))"
    using le Suc.prems by (simp add: store_tab_new)
  have "init_column (Suc i) n (tab a b (Suc i) (\<lambda>r. 1)) = Some (tab a b (Suc n) (\<lambda>r. 1))"
    using Suc.hyps(1) [of "Suc i"] Suc.hyps(2) Suc.prems le by simp
  then show ?case using le st by (subst init_column.simps) simp
qed

lemma tab_Nil: "tab a b 0 w = []"
  by (simp add: tab_def)

lemma widths_row0: "(widths n 0 j)(0 := Suc j) = widths n 0 (Suc j)"
  by (auto simp: widths_def)

lemma init_row_tab:
  "1 \<le> j \<Longrightarrow> j \<le> Suc n \<Longrightarrow> n \<le> length a \<Longrightarrow> 0 < h \<Longrightarrow>
   init_row j n (tab a b h (widths k 0 j)) = Some (tab a b h (widths k 0 (Suc n)))"
proof (induction "Suc n - j" arbitrary: j)
  case 0
  then have "j = Suc n" by simp
  then show ?case by (subst init_row.simps) simp
next
  case (Suc d)
  then have le: "j \<le> n" by simp
  have pd: "prefix_distance a b 0 j = j"
    using le Suc.prems by (simp add: prefix_distance_0_left)
  have "put (tab a b h (widths k 0 j)) 0 j (prefix_distance a b 0 j)
        = Some (tab a b h ((widths k 0 j)(0 := Suc j)))"
    using Suc.prems by (intro put_tab_append) (simp_all add: widths_def)
  then have pt: "put (tab a b h (widths k 0 j)) 0 j j = Some (tab a b h (widths k 0 (Suc j)))"
    by (simp add: pd widths_row0)
  have "init_row (Suc j) n (tab a b h (widths k 0 (Suc j))) = Some (tab a b h (widths k 0 (Suc n)))"
    using Suc.hyps(1) [of "Suc j"] Suc.hyps(2) Suc.prems le by simp
  then show ?case using le pt by (subst init_row.simps) simp
qed

lemma widths_const: "widths k 0 1 = (\<lambda>r. 1)"
  by (auto simp: widths_def)

lemma init_row_tab0:
  assumes "n \<le> length a" "0 < h"
  shows "init_row 0 n (tab a b h (\<lambda>r. 1)) = Some (tab a b h (widths k 0 (Suc n)))"
proof -
  have eq: "tab a b h (\<lambda>r. 1) = tab a b h (widths k 0 1)"
    by (simp only: widths_const)
  have "put (tab a b h (widths k 0 1)) 0 0 (prefix_distance a b 0 0) = Some (tab a b h (widths k 0 1))"
    using assms by (intro put_tab_overwrite) (simp_all add: widths_def)
  then have "put (tab a b h (widths k 0 1)) 0 0 0 = Some (tab a b h (widths k 0 1))"
    by (simp add: prefix_distance_0_left)
  then show ?thesis
    unfolding eq using init_row_tab [of 1 n a h b k] assms by (subst init_row.simps) simp
qed

lemma widths_step: "(widths n i j)(i := Suc j) = widths n i (Suc j)"
  by (auto simp: widths_def)

lemma widths_next_row: "widths n i n = widths n (Suc i) 1"
  by (auto simp: widths_def)

lemma charAt_eq: "i < length b \<Longrightarrow> j < length a \<Longrightarrow> charAt b i = charAt a j \<longleftrightarrow> b ! i = a ! j"
  by (simp add: charAt_def)

lemma fill_row_tab:
  assumes "1 \<le> i" "i \<le> length b"
  shows "1 \<le> j \<Longrightarrow> j \<le> Suc (length a) \<Longrightarrow>
         fill_row a b i j (tab a b (Suc (length b)) (widths (Suc (length a)) i j))
         = Some (tab a b (Suc (length b)) (widths (Suc (length a)) i (Suc (length a))))"
proof (induction "Suc (length a) - j" arbitrary: j)
  case 0
  then have "j = Suc (length a)" by simp
  then show ?case by (subst fill_row.simps) simp
next
  case (Suc d)
  let ?n = "Suc (length a)" and ?h = "Suc (length b)"
  let ?m = "tab a b ?h (widths ?n i j)"
  from Suc have le: "j \<le> length a" by simp
  obtain i' where i': "i = Suc i'" "i' < length b"
    using assms by (cases i) simp_all
  obtain j' where j': "j = Suc j'" "j' < length a"
    using Suc.prems le by (cases j) simp_all
  have diag: "cell ?m (i - 1) (j - 1) = Some (prefix_distance a b i' j')"
    using i' j' by (simp add: cell_tab widths_def)
  have left: "cell ?m i (j - 1) = Some (prefix_distance a b i j')"
    using i' j' by (simp add: cell_tab widths_def)
  have top: "cell ?m (i - 1) j = Some (prefix_distance a b i' j)"
    using i' j' by (simp add: cell_tab widths_def)
  have v: "(if charAt b (i - 1) = charAt a (j - 1) then cell ?m (i - 1) (j - 1)
            else do {
              substitution \<leftarrow> cell ?m (i - 1) (j - 1);
              insertion \<leftarrow> cell ?m i (j - 1);
              deletion \<leftarrow> cell ?m (i - 1) j;
              Some (min (substitution + 1) (min (insertion + 1) (deletion + 1)))
            }) = Some (prefix_distance a b i j)"
    unfolding diag left top using i' j'
    by (simp add: charAt_eq prefix_distance_Suc)
  have pt: "put ?m i j (prefix_distance a b i j) = Some (tab a b ?h (widths ?n i (Suc j)))"
    using put_tab_append [of i ?h "widths ?n i j" j a b] assms
    by (simp add: widths_step) (simp add: widths_def)
  have rest: "fill_row a b i (j + 1) (tab a b ?h (widths ?n i (Suc j)))
              = Some (tab a b ?h (widths ?n i ?n))"
    using Suc.hyps(1) [of "Suc j"] Suc.hyps(2) le by simp
  show ?case
    by (subst fill_row.simps) (simp only: le if_True v pt rest bind.bind_lunit)
qed

lemma fill_rows_tab:
  "1 \<le> i \<Longrightarrow> i \<le> Suc (length b) \<Longrightarrow>
   fill_rows a b i (tab a b (Suc (length b)) (widths (Suc (length a)) i 1))
   = Some (tab a b (Suc (length b)) (widths (Suc (length a)) (Suc (length b)) 1))"
proof (induction "Suc (length b) - i" arbitrary: i)
  case 0
  then have "i = Suc (length b)" by simp
  then show ?case by (subst fill_rows.simps) simp
next
  case (Suc d)
  then have le: "i \<le> length b" by simp
  have row: "fill_row a b i 1 (tab a b (Suc (length b)) (widths (Suc (length a)) i 1))
             = Some (tab a b (Suc (length b)) (widths (Suc (length a)) (Suc i) 1))"
    using fill_row_tab [of i b 1 a] Suc.prems le by (simp add: widths_next_row)
  have rest: "fill_rows a b (i + 1) (tab a b (Suc (length b)) (widths (Suc (length a)) (Suc i) 1))
              = Some (tab a b (Suc (length b)) (widths (Suc (length a)) (Suc (length b)) 1))"
    using Suc.hyps(1) [of "Suc i"] Suc.hyps(2) le by simp
  show ?case
    by (subst fill_rows.simps) (simp only: le if_True row rest bind.bind_lunit)
qed

lemma getLevenshteinDistance_edit_distance:
  "getLevenshteinDistance a b = Some (edit_distance a b)"
proof (cases "a = [] \<or> b = []")
  case True
  then show ?thesis by (auto simp: getLevenshteinDistance_def ed_Nil2)
next
  case False
  let ?n = "Suc (length a)" and ?h = "Suc (length b)"
  have c: "init_column 0 (length b) [] = Some (tab a b ?h (\<lambda>r. 1))"
    using init_column_tab [of 0 "length b" b a] by (simp add: tab_Nil)
  have r: "init_row 0 (length a) (tab a b ?h (\<lambda>r. 1)) = Some (tab a b ?h (widths ?n 1 1))"
    using init_row_tab0 [of "length a" a ?h b ?n] by (simp add: widths_next_row)
  have f: "fill_rows a b 1 (tab a b ?h (widths ?n 1 1)) = Some (tab a b ?h (widths ?n ?h 1))"
    using fill_rows_tab [of 1 b a] by simp
  have x: "cell (tab a b ?h (widths ?n ?h 1)) (length b) (length a) = Some (edit_distance a b)"
    by (simp add: cell_tab widths_def prefix_distance_full)
  have ne: "(a = []) = False" "(b = []) = False"
    using False by simp_all
  show ?thesis
    unfolding getLevenshteinDistance_def by (simp only: ne if_False c r f x bind.bind_lunit)
qed

section \<open>Normalisation\<close>

lemma trim_Nil: "trim [] = []"
  by (simp add: trim_def)

lemma normalize_str_Nil: "lower [] = [] \<Longrightarrow> normalize_str lower [] = []"
  by (simp add: normalize_str_def trim_Nil)

lemma dropWhile_snoc_keep: "\<not> P x \<Longrightarrow> dropWhile P (xs @ [x]) = dropWhile P xs @ [x]"
  by (induction xs) auto

lemma trim_Cons:
  assumes "dropWhile isWhiteSpace s = x # t"
  shows "trim s = x # rev (dropWhile isWhiteSpace (rev t))"
proof -
  have "\<not> isWhiteSpace x"
    using hd_dropWhile [of isWhiteSpace s] assms by simp
  then show ?thesis
    using assms by (simp add: trim_def dropWhile_snoc_keep)
qed

lemma trim_ends:
  "trim s = [] \<or> (\<not> isWhiteSpace (hd (trim s)) \<and> \<not> isWhiteSpace (last (trim s)))"
proof (cases "dropWhile isWhiteSpace s")
  case Nil
  have "trim s = []" unfolding trim_def Nil by simp
  then show ?thesis by simp
next
  case (Cons x t)
  have x: "\<not> isWhiteSpace x"
    using hd_dropWhile [of isWhiteSpace s] Cons by simp
  have h: "hd (trim s) = x"
    using trim_Cons [OF Cons] by simp
  let ?r = "dropWhile isWhiteSpace (rev (dropWhile isWhiteSpace s))"
  have r: "?r \<noteq> []"
    using trim_Cons [OF Cons] by (auto simp: trim_def)
  have "last (trim s) = hd ?r"
    using r by (simp add: trim_def last_rev)
  then have "\<not> isWhiteSpace (last (trim s))"
    using hd_dropWhile [OF r] by simp
  then show ?thesis using x h by simp
qed

lemma hd_filter_keep: "xs \<noteq> [] \<Longrightarrow> P (hd xs) \<Longrightarrow> hd (filter P xs) = hd xs"
  by (cases xs) simp_all

lemma last_filter_keep:
  assumes "xs \<noteq> []" "P (last xs)"
  shows "last (filter P xs) = last xs"
proof -
  have ne: "filter P xs \<noteq> []"
    using assms by (metis filter_empty_conv last_in_set)
  have "last (filter P xs) = hd (filter P (rev xs))"
    using ne by (simp add: rev_filter [symmetric] hd_rev)
  also have "\<dots> = hd (rev xs)"
    using assms by (intro hd_filter_keep) (simp_all add: hd_rev)
  finally show ?thesis using assms by (simp add: hd_rev)
qed

lemma count_list_filter: "P c \<Longrightarrow> count_list (filter P xs) c = count_list xs c"
  by (induction xs) auto

section \<open>Matching\<close>

lemma isFuzzyMatch_edit_distance:
  "isFuzzyMatch lower user correct =
     Some (user \<noteq> [] \<and> correct \<noteq> [] \<and>
           (normalize_str lower user = normalize_str lower correct \<or>
            (let len = max (length (normalize_str lower user)) (length (normalize_str lower correct));
                 d = edit_distance (normalize_str lower user) (normalize_str lower correct)
             in if len \<le> 3 then d = 0 else if len \<le> 7 then d \<le> 1 else d \<le> 2)))"
  by (simp add: isFuzzyMatch_def Let_def getLevenshteinDistance_edit_distance)

lemma isFuzzyMatch_total: "\<exists>v. isFuzzyMatch lower user correct = Some v"
  by (simp add: isFuzzyMatch_edit_distance)

lemma some_total:
  "\<forall>x\<in>set xs. \<exists>v. p x = Some v \<Longrightarrow> some p xs = Some (\<exists>x\<in>set xs. p x = Some True)"
  by (induction xs) auto

lemma isCorrect_total: "\<exists>v. isCorrect lower riddle answer = Some v"
proof (cases "isFuzzyMatch lower answer (correctAnswer riddle)")
  case None
  then show ?thesis using isFuzzyMatch_total [of lower answer "correctAnswer riddle"] by simp
next
  case (Some v)
  have "\<exists>w. some (\<lambda>ans. isFuzzyMatch lower answer ans) xs = Some w" for xs
    using some_total [of xs "\<lambda>ans. isFuzzyMatch lower answer ans"] isFuzzyMatch_total by blast
  then show ?thesis
    using Some by (auto simp: isCorrect_def split: option.splits)
qed

lemma handleSubmit_no_riddle: "handleSubmit lower None st = Some st"
  by (simp add: handleSubmit_def)

lemma handleSubmit_verdict:
  "isCorrect lower r (userAnswer st) = Some v \<Longrightarrow>
   handleSubmit lower (Some r) st
   = Some (if v then st\<lparr>showSuccess := True\<rparr> else st\<lparr>showError := True\<rparr>)"
  by (simp add: handleSubmit_def)


section \<open>Properties stated by the specification\<close>

text \<open>
  C1. Whenever both normalized forms are non-empty, \<open>isFuzzyMatch\<close> returns true exactly when
  the edit distance \<open>d\<close> between the two normalized forms is within the tolerance of the tier
  chosen by \<open>len\<close>, the larger of the two normalized lengths: \<open>d = 0\<close> for \<open>len \<le> 3\<close>,
  \<open>d \<le> 1\<close> for \<open>4 \<le> len \<le> 7\<close>, \<open>d \<le> 2\<close> for \<open>len > 7\<close>. The only fact about lower-casing
  that is used is that it maps the empty string to the empty string.
\<close>
theorem isFuzzyMatch_tiers:
  assumes "lower [] = []"
    and "normalize_str lower user \<noteq> []"
    and "normalize_str lower correct \<noteq> []"
  shows "isFuzzyMatch lower user correct =
     Some (let a = normalize_str lower user;
               b = normalize_str lower correct;
               len = max (length a) (length b);
               d = edit_distance a b
           in (len \<le> 3 \<and> d = 0) \<or> (4 \<le> len \<and> len \<le> 7 \<and> d \<le> 1) \<or> (7 < len \<and> d \<le> 2))"
proof -
  have raw: "user \<noteq> []" "correct \<noteq> []"
    using assms normalize_str_Nil [of lower] by auto
  show ?thesis
    using raw by (auto simp: isFuzzyMatch_edit_distance Let_def ed_refl)
qed

text \<open>
  C1 at "Elch" against "Elf" (tier 4, distance 2: rejected) and against "Elck" (tier 4,
  distance 1: accepted).
\<close>
theorem isFuzzyMatch_tiers_witness:
  "toLowerCase_ascii [] = []
   \<and> normalize_str toLowerCase_ascii (ascii ''Elch'') \<noteq> []
   \<and> normalize_str toLowerCase_ascii (ascii ''Elf'') \<noteq> []
   \<and> isFuzzyMatch toLowerCase_ascii (ascii ''Elch'') (ascii ''Elf'') = Some False
   \<and> isFuzzyMatch toLowerCase_ascii (ascii ''Elch'') (ascii ''Elck'') = Some True"
proof -
  have n: "normalize_str toLowerCase_ascii (ascii ''Elch'') = [0x65, 0x6C, 0x63, 0x68]"
    "normalize_str toLowerCase_ascii (ascii ''Elf'') = [0x65, 0x6C, 0x66]"
    "normalize_str toLowerCase_ascii (ascii ''Elck'') = [0x65, 0x6C, 0x63, 0x6B]"
    by (simp_all add: normalize_str_def toLowerCase_ascii_def trim_def isWhiteSpace_def
        punctuation_def ascii_def)
  have l: "toLowerCase_ascii [] = []"
    by (simp add: toLowerCase_ascii_def)
  show ?thesis
    using isFuzzyMatch_tiers [of toLowerCase_ascii "ascii ''Elch''" "ascii ''Elf''"]
      isFuzzyMatch_tiers [of toLowerCase_ascii "ascii ''Elch''" "ascii ''Elck''"]
    by (simp add: n l)
qed

text \<open>
  C2. \<open>getLevenshteinDistance a b\<close> returns a number \<open>d\<close>; \<open>d\<close> single-character insertions,
  deletions or substitutions transform \<open>a\<close> into \<open>b\<close>, no smaller number of them does, and
  \<open>d\<close> is the bottom-right cell of the reference grid.
\<close>
theorem getLevenshteinDistance_minimal_edits:
  "\<exists>d. getLevenshteinDistance a b = Some d
       \<and> (edit1 ^^ d) a b
       \<and> (\<forall>n. (edit1 ^^ n) a b \<longrightarrow> d \<le> n)
       \<and> d = grid_cell a b (length b) (length a)"
proof -
  have "(edit1 ^^ edit_distance a b) a b"
    by (rule ed_upper)
  moreover have "\<forall>n. (edit1 ^^ n) a b \<longrightarrow> edit_distance a b \<le> n"
    using ed_lower by blast
  moreover have "edit_distance a b = grid_cell a b (length b) (length a)"
    by (simp add: grid_cell_prefix prefix_distance_full)
  ultimately show ?thesis
    using getLevenshteinDistance_edit_distance [of a b] by blast
qed

text \<open>C2 at "a" and "b": one substitution, distance 1.\<close>
theorem getLevenshteinDistance_minimal_edits_witness:
  "(edit1 ^^ 1) [0x61] [0x62 :: code_unit]
   \<and> getLevenshteinDistance [0x61] [0x62] = Some 1"
proof -
  have e: "(edit1 ^^ 1) [0x61] [0x62 :: code_unit]"
    using edit1.substitution [of "0x61 :: code_unit" "0x62" "[]" "[]"] by auto
  obtain d where d: "getLevenshteinDistance [0x61] [0x62] = Some d"
    "\<forall>n. (edit1 ^^ n) [0x61] [0x62 :: code_unit] \<longrightarrow> d \<le> n"
    "d = grid_cell [0x61] [0x62 :: code_unit] (length [0x62 :: code_unit]) (length [0x61 :: code_unit])"
    using getLevenshteinDistance_minimal_edits [of "[0x61]" "[0x62]"] by blast
  have "d \<le> 1" using d(2) e by blast
  moreover have "d = 1" using d(3) by (simp add: numeral_eq_Suc)
  ultimately show ?thesis using d(1) e by simp
qed

text \<open>
  C3 as stated fails: "!" and "?" are non-empty, both normalize to the empty string, and
  \<open>isFuzzyMatch\<close> accepts them, because the guard tests the raw inputs and the normalized
  forms are then equal.
\<close>
theorem isFuzzyMatch_empty_normal_form_counterexample:
  "normalize_str toLowerCase_ascii (ascii ''!'') = []
   \<and> normalize_str toLowerCase_ascii (ascii ''?'') = []
   \<and> isFuzzyMatch toLowerCase_ascii (ascii ''!'') (ascii ''?'') = Some True"
  by (simp add: isFuzzyMatch_def normalize_str_def toLowerCase_ascii_def trim_def
      isWhiteSpace_def punctuation_def ascii_def)

text \<open>
  C3, amended. \<open>isFuzzyMatch\<close> returns false when either raw input is empty, and when exactly
  one of the two inputs is empty after normalization; in particular for two raw empty strings.
\<close>
theorem isFuzzyMatch_empty:
  assumes "user = [] \<or> correct = []
           \<or> (normalize_str lower user = []) \<noteq> (normalize_str lower correct = [])"
  shows "isFuzzyMatch lower user correct = Some False"
proof (cases "user = [] \<or> correct = []")
  case True
  then show ?thesis by (simp add: isFuzzyMatch_def)
next
  case False
  let ?a = "normalize_str lower user" and ?b = "normalize_str lower correct"
  from False assms have one: "(?a = []) \<noteq> (?b = [])" by simp
  then have ne: "?a \<noteq> ?b" by auto
  have d: "edit_distance ?a ?b = max (length ?a) (length ?b)"
    using one by (cases "?a = []") (auto simp: ed_Nil2)
  have pos: "0 < max (length ?a) (length ?b)"
    using one by (cases "?a = []") auto
  show ?thesis
    using ne pos by (auto simp: isFuzzyMatch_edit_distance Let_def d)
qed

text \<open>
  C3 amended at the empty submission against "Ja", and at "..." (empty once normalized)
  against "Ja".
\<close>
theorem isFuzzyMatch_empty_witness:
  "(([] :: jsstring) = [] \<or> ascii ''Ja'' = []
     \<or> (normalize_str toLowerCase_ascii [] = []) \<noteq> (normalize_str toLowerCase_ascii (ascii ''Ja'') = []))
   \<and> isFuzzyMatch toLowerCase_ascii [] (ascii ''Ja'') = Some False
   \<and> ascii ''...'' \<noteq> [] \<and> normalize_str toLowerCase_ascii (ascii ''...'') = []
   \<and> normalize_str toLowerCase_ascii (ascii ''Ja'') \<noteq> []
   \<and> isFuzzyMatch toLowerCase_ascii (ascii ''...'') (ascii ''Ja'') = Some False"
proof -
  have n: "normalize_str toLowerCase_ascii (ascii ''...'') = []"
    "normalize_str toLowerCase_ascii (ascii ''Ja'') = [0x6A, 0x61]"
    by (simp_all add: normalize_str_def toLowerCase_ascii_def trim_def isWhiteSpace_def
        punctuation_def ascii_def)
  show ?thesis
    using isFuzzyMatch_empty [of "[]" "ascii ''Ja''" toLowerCase_ascii]
      isFuzzyMatch_empty [of "ascii ''...''" "ascii ''Ja''" toLowerCase_ascii]
    by (simp add: n) (simp add: ascii_def)
qed

text \<open>
  C4 as stated fails: the input ". a" is trimmed before the full stop is removed, so its
  normalized form " a" begins with a space.
\<close>
theorem normalize_str_leading_space_counterexample:
  "normalize_str toLowerCase_ascii (ascii ''. a'') = ascii '' a''
   \<and> isWhiteSpace (hd (ascii '' a''))"
  by (simp add: normalize_str_def toLowerCase_ascii_def trim_def isWhiteSpace_def
      punctuation_def ascii_def)

text \<open>
  C4, amended. The normalized form is the lower-cased trimmed input with exactly the
  occurrences of the nine punctuation characters removed: it contains none of them, it is a
  subsequence of the lower-cased trimmed input in which every other code unit occurs as often
  as before, and it contains no code unit of any kind \<open>upper\<close> that lower-casing has left none
  of. It begins (ends) with a code unit that is no whitespace whenever the lower-cased trimmed
  input begins (ends) with a code unit that is neither whitespace nor removed punctuation;
  the trimmed input itself never begins or ends with whitespace.
\<close>
theorem normalize_str_shape:
  "set (normalize_str lower s) \<inter> set punctuation = {}
   \<and> subseq (normalize_str lower s) (lower (trim s))
   \<and> (\<forall>c. c \<notin> set punctuation \<longrightarrow>
          count_list (normalize_str lower s) c = count_list (lower (trim s)) c)
   \<and> ((\<forall>c\<in>set (lower (trim s)). \<not> upper c) \<longrightarrow> (\<forall>c\<in>set (normalize_str lower s). \<not> upper c))
   \<and> (lower (trim s) \<noteq> [] \<and> hd (lower (trim s)) \<notin> set punctuation
        \<and> \<not> isWhiteSpace (hd (lower (trim s)))
        \<longrightarrow> normalize_str lower s \<noteq> [] \<and> \<not> isWhiteSpace (hd (normalize_str lower s)))
   \<and> (lower (trim s) \<noteq> [] \<and> last (lower (trim s)) \<notin> set punctuation
        \<and> \<not> isWhiteSpace (last (lower (trim s)))
        \<longrightarrow> normalize_str lower s \<noteq> [] \<and> \<not> isWhiteSpace (last (normalize_str lower s)))
   \<and> (trim s = [] \<or> (\<not> isWhiteSpace (hd (trim s)) \<and> \<not> isWhiteSpace (last (trim s))))"
proof -
  let ?keep = "\<lambda>c. c \<notin> set punctuation"
  let ?t = "lower (trim s)"
  have 1: "set (normalize_str lower s) \<inter> set punctuation = {}"
    by (auto simp: normalize_str_def)
  have 2: "subseq (normalize_str lower s) ?t"
    by (simp add: normalize_str_def)
  have 3: "\<forall>c. c \<notin> set punctuation \<longrightarrow> count_list (normalize_str lower s) c = count_list ?t c"
    by (simp add: normalize_str_def count_list_filter)
  have 4: "(\<forall>c\<in>set ?t. \<not> upper c) \<longrightarrow> (\<forall>c\<in>set (normalize_str lower s). \<not> upper c)"
    by (simp add: normalize_str_def)
  have 5: "normalize_str lower s \<noteq> [] \<and> \<not> isWhiteSpace (hd (normalize_str lower s))"
    if "?t \<noteq> []" "hd ?t \<notin> set punctuation" "\<not> isWhiteSpace (hd ?t)"
  proof -
    have "hd ?t \<in> set (filter ?keep ?t)" using that by simp
    then have "filter ?keep ?t \<noteq> []" by force
    moreover have "hd (filter ?keep ?t) = hd ?t"
      using that by (intro hd_filter_keep) simp_all
    ultimately show ?thesis using that by (simp add: normalize_str_def)
  qed
  have 6: "normalize_str lower s \<noteq> [] \<and> \<not> isWhiteSpace (last (normalize_str lower s))"
    if "?t \<noteq> []" "last ?t \<notin> set punctuation" "\<not> isWhiteSpace (last ?t)"
  proof -
    have "last ?t \<in> set (filter ?keep ?t)" using that by simp
    then have "filter ?keep ?t \<noteq> []" by force
    moreover have "last (filter ?keep ?t) = last ?t"
      using that by (intro last_filter_keep) simp_all
    ultimately show ?thesis using that by (simp add: normalize_str_def)
  qed
  show ?thesis
    using 1 2 3 4 5 6 trim_ends [of s] by blast
qed

text \<open>C4 amended at " Ab-c ", whose normalized form is "abc".\<close>
theorem normalize_str_shape_witness:
  "toLowerCase_ascii (trim (ascii '' Ab-c '')) = ascii ''ab-c''
   \<and> normalize_str toLowerCase_ascii (ascii '' Ab-c '') = ascii ''abc''
   \<and> set (normalize_str toLowerCase_ascii (ascii '' Ab-c '')) \<inter> set punctuation = {}
   \<and> count_list (normalize_str toLowerCase_ascii (ascii '' Ab-c '')) 0x62
       = count_list (toLowerCase_ascii (trim (ascii '' Ab-c ''))) 0x62
   \<and> 0x62 \<in> set (normalize_str toLowerCase_ascii (ascii '' Ab-c ''))
   \<and> \<not> (0x41 \<le> (0x62 :: code_unit) \<and> (0x62 :: code_unit) \<le> 0x5A)
   \<and> \<not> isWhiteSpace (hd (normalize_str toLowerCase_ascii (ascii '' Ab-c '')))
   \<and> \<not> isWhiteSpace (last (normalize_str toLowerCase_ascii (ascii '' Ab-c '')))"
proof -
  let ?s = "ascii '' Ab-c ''"
  let ?upper = "\<lambda>c :: code_unit. 0x41 \<le> c \<and> c \<le> 0x5A"
  have t: "toLowerCase_ascii (trim ?s) = [0x61, 0x62, 0x2D, 0x63]"
    by (simp add: toLowerCase_ascii_def trim_def isWhiteSpace_def ascii_def)
  have n: "normalize_str toLowerCase_ascii ?s = [0x61, 0x62, 0x63]"
    by (simp add: normalize_str_def t) (simp add: punctuation_def)
  have a: "ascii ''ab-c'' = [0x61, 0x62, 0x2D, 0x63]" "ascii ''abc'' = [0x61, 0x62, 0x63]"
    by (simp_all add: ascii_def)
  have lower_case: "\<forall>c\<in>set (toLowerCase_ascii (trim ?s)). \<not> ?upper c"
    unfolding t by simp
  have first: "toLowerCase_ascii (trim ?s) \<noteq> [] \<and> hd (toLowerCase_ascii (trim ?s)) \<notin> set punctuation
               \<and> \<not> isWhiteSpace (hd (toLowerCase_ascii (trim ?s)))"
    unfolding t by (simp add: punctuation_def isWhiteSpace_def)
  have final: "toLowerCase_ascii (trim ?s) \<noteq> [] \<and> last (toLowerCase_ascii (trim ?s)) \<notin> set punctuation
               \<and> \<not> isWhiteSpace (last (toLowerCase_ascii (trim ?s)))"
    unfolding t by (simp add: punctuation_def isWhiteSpace_def)
  have b: "(0x62 :: code_unit) \<notin> set punctuation"
    by (simp add: punctuation_def)
  note shape = normalize_str_shape [of toLowerCase_ascii ?s ?upper]
  have "set (normalize_str toLowerCase_ascii ?s) \<inter> set punctuation = {}"
    using shape by blast
  moreover have "count_list (normalize_str toLowerCase_ascii ?s) 0x62
                 = count_list (toLowerCase_ascii (trim ?s)) 0x62"
    using shape b by blast
  moreover have "\<forall>c\<in>set (normalize_str toLowerCase_ascii ?s). \<not> ?upper c"
    using shape lower_case by blast
  then have "\<not> ?upper 0x62"
    unfolding n by simp
  moreover have "\<not> isWhiteSpace (hd (normalize_str toLowerCase_ascii ?s))"
    using shape first by blast
  moreover have "\<not> isWhiteSpace (last (normalize_str toLowerCase_ascii ?s))"
    using shape final by blast
  moreover have "0x62 \<in> set (normalize_str toLowerCase_ascii ?s)"
    unfolding n by simp
  ultimately show ?thesis
    using t n a by simp
qed

text \<open>
  C5 as stated fails: ". a" normalizes to " a", and " a" normalizes to "a".
\<close>
theorem normalize_str_idempotent_counterexample:
  "normalize_str toLowerCase_ascii (normalize_str toLowerCase_ascii (ascii ''. a''))
   \<noteq> normalize_str toLowerCase_ascii (ascii ''. a'')"
  by (simp add: normalize_str_def toLowerCase_ascii_def trim_def isWhiteSpace_def
      punctuation_def ascii_def)

text \<open>
  C5, amended. Normalizing twice gives the same as normalizing once for every input whose
  normalized form has no leading or trailing whitespace and is left unchanged by lower-casing.
\<close>
theorem normalize_str_idempotent:
  assumes "trim (normalize_str lower s) = normalize_str lower s"
    and "lower (normalize_str lower s) = normalize_str lower s"
  shows "normalize_str lower (normalize_str lower s) = normalize_str lower s"
proof -
  have "normalize_str lower (normalize_str lower s)
        = filter (\<lambda>c. c \<notin> set punctuation) (normalize_str lower s)"
    using assms by (simp add: normalize_str_def [of lower "normalize_str lower s"])
  also have "\<dots> = normalize_str lower s"
    by (simp add: normalize_str_def)
  finally show ?thesis .
qed

text \<open>C5 amended at " Ab-c. ".\<close>
theorem normalize_str_idempotent_witness:
  "trim (normalize_str toLowerCase_ascii (ascii '' Ab-c. '')) = normalize_str toLowerCase_ascii (ascii '' Ab-c. '')
   \<and> toLowerCase_ascii (normalize_str toLowerCase_ascii (ascii '' Ab-c. '')) = normalize_str toLowerCase_ascii (ascii '' Ab-c. '')
   \<and> normalize_str toLowerCase_ascii (normalize_str toLowerCase_ascii (ascii '' Ab-c. '')) = ascii ''abc''"
proof -
  have n: "normalize_str toLowerCase_ascii (ascii '' Ab-c. '') = [0x61, 0x62, 0x63]"
    by (simp add: normalize_str_def toLowerCase_ascii_def trim_def isWhiteSpace_def
        punctuation_def ascii_def)
  have h: "trim [0x61, 0x62, 0x63] = [0x61, 0x62, 0x63]"
    "toLowerCase_ascii [0x61, 0x62, 0x63] = [0x61, 0x62, 0x63]"
    by (simp_all add: toLowerCase_ascii_def trim_def isWhiteSpace_def)
  show ?thesis
    using normalize_str_idempotent [of toLowerCase_ascii "ascii '' Ab-c. ''"]
    unfolding n by (simp add: h ascii_def)
qed

text \<open>
  C6. For a text riddle the verdict is true exactly when the submission matches the canonical
  answer or matches some alternate answer, an absent collection of alternates counting as
  empty. The right-hand side depends on the alternates only through the set of their
  elements, hence not on their order.
\<close>
theorem isCorrect_text:
  assumes "type riddle = Text"
  shows "isCorrect lower riddle answer =
     Some (isFuzzyMatch lower answer (correctAnswer riddle) = Some True
           \<or> (\<exists>alt \<in> set (case acceptedAnswers riddle of None \<Rightarrow> [] | Some alts \<Rightarrow> alts).
                 isFuzzyMatch lower answer alt = Some True))"
proof -
  obtain v where v: "isFuzzyMatch lower answer (correctAnswer riddle) = Some v"
    using isFuzzyMatch_total by blast
  have alts: "some (\<lambda>ans. isFuzzyMatch lower answer ans) xs
              = Some (\<exists>alt\<in>set xs. isFuzzyMatch lower answer alt = Some True)" for xs
    by (rule some_total) (simp add: isFuzzyMatch_total)
  show ?thesis
  proof (cases "acceptedAnswers riddle")
    case None
    then show ?thesis using assms v by (simp add: isCorrect_def)
  next
    case (Some xs)
    then show ?thesis using assms v alts [of xs] by (cases xs) (simp_all add: isCorrect_def)
  qed
qed

text \<open>C6 at "Nikolaus" against "Weihnachtsmann" with alternates "Nikolaus" and "Santa".\<close>
theorem isCorrect_text_witness:
  "type \<lparr>day = 6, question = [], type = Text, options = None,
      correctAnswer = ascii ''Weihnachtsmann'',
      acceptedAnswers = Some [ascii ''Nikolaus'', ascii ''Santa''],
      solutionExplanation = [], hints = [], imageUrl = None\<rparr> = Text
   \<and> isCorrect toLowerCase_ascii
       \<lparr>day = 6, question = [], type = Text, options = None,
        correctAnswer = ascii ''Weihnachtsmann'',
        acceptedAnswers = Some [ascii ''Nikolaus'', ascii ''Santa''],
        solutionExplanation = [], hints = [], imageUrl = None\<rparr>
       (ascii ''Nikolaus'') = Some True"
proof -
  have m: "isFuzzyMatch toLowerCase_ascii (ascii ''Nikolaus'') (ascii ''Nikolaus'') = Some True"
    by (simp add: isFuzzyMatch_def ascii_def)
  show ?thesis
    using isCorrect_text [of "\<lparr>day = 6, question = [], type = Text, options = None,
        correctAnswer = ascii ''Weihnachtsmann'',
        acceptedAnswers = Some [ascii ''Nikolaus'', ascii ''Santa''],
        solutionExplanation = [], hints = [], imageUrl = None\<rparr>" toLowerCase_ascii "ascii ''Nikolaus''"]
    by (simp add: m)
qed

text \<open>
  C7. For a choice riddle the verdict is the equality of the submission and the canonical
  answer as strings: nothing is normalized and no distance is computed.
\<close>
theorem isCorrect_choice:
  assumes "type riddle = Choice"
  shows "isCorrect lower riddle answer = Some (answer = correctAnswer riddle)"
  using assms by (simp add: isCorrect_def)

text \<open>
  C7 at canonical answer "A": "B" is judged incorrect, and so is "a", which
  \<open>isFuzzyMatch\<close> would accept.
\<close>
theorem isCorrect_choice_witness:
  "type \<lparr>day = 1, question = [], type = Choice,
      options = Some [ascii ''A'', ascii ''B''], correctAnswer = ascii ''A'',
      acceptedAnswers = None, solutionExplanation = [], hints = [], imageUrl = None\<rparr> = Choice
   \<and> isCorrect toLowerCase_ascii
       \<lparr>day = 1, question = [], type = Choice,
        options = Some [ascii ''A'', ascii ''B''], correctAnswer = ascii ''A'',
        acceptedAnswers = None, solutionExplanation = [], hints = [], imageUrl = None\<rparr>
       (ascii ''B'') = Some False
   \<and> isCorrect toLowerCase_ascii
       \<lparr>day = 1, question = [], type = Choice,
        options = Some [ascii ''A'', ascii ''B''], correctAnswer = ascii ''A'',
        acceptedAnswers = None, solutionExplanation = [], hints = [], imageUrl = None\<rparr>
       (ascii ''a'') = Some False
   \<and> isFuzzyMatch toLowerCase_ascii (ascii ''a'') (ascii ''A'') = Some True"
proof -
  have m: "isFuzzyMatch toLowerCase_ascii (ascii ''a'') (ascii ''A'') = Some True"
    by (simp add: isFuzzyMatch_def normalize_str_def toLowerCase_ascii_def trim_def
        isWhiteSpace_def punctuation_def ascii_def)
  show ?thesis
    using isCorrect_choice [of "\<lparr>day = 1, question = [], type = Choice,
        options = Some [ascii ''A'', ascii ''B''], correctAnswer = ascii ''A'',
        acceptedAnswers = None, solutionExplanation = [], hints = [], imageUrl = None\<rparr>"
        toLowerCase_ascii]
    by (simp add: m) (simp add: ascii_def)
qed

text \<open>C8. \<open>getLevenshteinDistance a b\<close> and \<open>getLevenshteinDistance b a\<close> return the same number.\<close>
theorem getLevenshteinDistance_symmetric:
  "\<exists>d. getLevenshteinDistance a b = Some d \<and> getLevenshteinDistance b a = Some d"
  using getLevenshteinDistance_edit_distance [of a b] getLevenshteinDistance_edit_distance [of b a]
  by (simp add: ed_sym [of a b])

text \<open>C8 at "ab" and "b": distance 1 in both orders.\<close>
theorem getLevenshteinDistance_symmetric_witness:
  "getLevenshteinDistance (ascii ''ab'') (ascii ''b'') = Some 1
   \<and> getLevenshteinDistance (ascii ''b'') (ascii ''ab'') = Some 1"
proof -
  have l: "getLevenshteinDistance (ascii ''ab'') (ascii ''b'') = Some 1"
    by (simp add: getLevenshteinDistance_edit_distance ascii_def)
  show ?thesis
    using getLevenshteinDistance_symmetric [of "ascii ''ab''" "ascii ''b''"] l by auto
qed

text \<open>
  C9. The distance from \<open>a\<close> to \<open>c\<close> is at most the distance from \<open>a\<close> to \<open>b\<close> plus the
  distance from \<open>b\<close> to \<open>c\<close>, all three as returned by \<open>getLevenshteinDistance\<close>.
\<close>
theorem getLevenshteinDistance_triangle:
  "\<exists>x y z. getLevenshteinDistance a c = Some x \<and> getLevenshteinDistance a b = Some y
           \<and> getLevenshteinDistance b c = Some z \<and> x \<le> y + z"
  using ed_triangle [of a c b] by (simp add: getLevenshteinDistance_edit_distance)

text \<open>C9 at "ab", "ad" and "cd": 2 is at most 1 + 1.\<close>
theorem getLevenshteinDistance_triangle_witness:
  "getLevenshteinDistance (ascii ''ab'') (ascii ''cd'') = Some 2
   \<and> getLevenshteinDistance (ascii ''ab'') (ascii ''ad'') = Some 1
   \<and> getLevenshteinDistance (ascii ''ad'') (ascii ''cd'') = Some 1
   \<and> (2 :: nat) \<le> 1 + 1"
proof -
  have l: "getLevenshteinDistance (ascii ''ab'') (ascii ''cd'') = Some 2"
    "getLevenshteinDistance (ascii ''ab'') (ascii ''ad'') = Some 1"
    "getLevenshteinDistance (ascii ''ad'') (ascii ''cd'') = Some 1"
    by (simp_all add: getLevenshteinDistance_edit_distance ascii_def)
  show ?thesis
    using getLevenshteinDistance_triangle [of "ascii ''ab''" "ascii ''cd''" "ascii ''ad''"] l
    by auto
qed

text \<open>
  C10. \<open>isFuzzyMatch\<close> returns the same verdict when its two arguments are exchanged, whatever
  the lower-casing function.
\<close>
theorem isFuzzyMatch_symmetric:
  "\<exists>v. isFuzzyMatch lower x y = Some v \<and> isFuzzyMatch lower y x = Some v"
proof -
  have "isFuzzyMatch lower x y = isFuzzyMatch lower y x"
    unfolding isFuzzyMatch_edit_distance
    by (simp only: ed_sym [of "normalize_str lower x"] max.commute [of "length (normalize_str lower x)"]
        eq_commute [of "normalize_str lower x"] conj_left_commute [of "x \<noteq> []"])
  then show ?thesis
    using isFuzzyMatch_total [of lower x y] by auto
qed

text \<open>C10 at "Elch" and "elck": accepted in both orders.\<close>
theorem isFuzzyMatch_symmetric_witness:
  "isFuzzyMatch toLowerCase_ascii (ascii ''Elch'') (ascii ''elck'') = Some True
   \<and> isFuzzyMatch toLowerCase_ascii (ascii ''elck'') (ascii ''Elch'') = Some True"
proof -
  have n: "normalize_str toLowerCase_ascii (ascii ''Elch'') = [0x65, 0x6C, 0x63, 0x68]"
    "normalize_str toLowerCase_ascii (ascii ''elck'') = [0x65, 0x6C, 0x63, 0x6B]"
    by (simp_all add: normalize_str_def toLowerCase_ascii_def trim_def isWhiteSpace_def
        punctuation_def ascii_def)
  have l: "isFuzzyMatch toLowerCase_ascii (ascii ''Elch'') (ascii ''elck'') = Some True"
    unfolding isFuzzyMatch_edit_distance n by (simp add: ascii_def)
  show ?thesis
    using isFuzzyMatch_symmetric [of toLowerCase_ascii "ascii ''Elch''" "ascii ''elck''"] l
    by auto
qed

end
